theory Spec2Isabelle
  imports Main "HOL-Library.Word" "HOL-Library.Stream"
begin

section \<open>Values of the Python program\<close>

text \<open>
  The module under study is \<^verbatim>\<open>encrypted_fields/fields.py\<close>.  A Python \<^verbatim>\<open>bytes\<close> object is a
  list of 8-bit words; a Python \<^verbatim>\<open>str\<close> is a list of Unicode code points (a \<^verbatim>\<open>str\<close> may hold
  lone surrogates, which is why encoding it can fail).
\<close>

type_synonym byte = "8 word"
type_synonym bytes = "byte list"
type_synonym pystr = "nat list"

text \<open>The exceptions that the modelled code can raise.\<close>

datatype error =
    IndexError
  | UnicodeEncodeError
  | UnicodeDecodeError
  | ValueError string
  | ImproperlyConfigured string

text \<open>An ASCII literal as a Python \<^verbatim>\<open>str\<close>, and as \<^verbatim>\<open>bytes\<close>.\<close>

definition pystr_of :: "string \<Rightarrow> pystr" where
  "pystr_of s = map of_char s"

definition bytes_of :: "string \<Rightarrow> bytes" where
  "bytes_of s = map (\<lambda>c. of_nat (of_char c)) s"

section \<open>The codecs the module calls\<close>

subsection \<open>\<^verbatim>\<open>str.encode("utf-8")\<close> and \<^verbatim>\<open>bytes.decode("utf-8")\<close>\<close>

definition is_surrogate :: "nat \<Rightarrow> bool" where
  "is_surrogate c = (55296 \<le> c \<and> c \<le> 57343)"

definition utf8_encode_cp :: "nat \<Rightarrow> bytes option" where
  "utf8_encode_cp c =
     (if c < 128 then Some [of_nat c]
      else if c < 2048 then Some [of_nat (192 + c div 64), of_nat (128 + c mod 64)]
      else if c < 65536 then
        (if is_surrogate c then None
         else Some [of_nat (224 + c div 4096), of_nat (128 + c div 64 mod 64),
                    of_nat (128 + c mod 64)])
      else if c < 1114112 then
        Some [of_nat (240 + c div 262144), of_nat (128 + c div 4096 mod 64),
              of_nat (128 + c div 64 mod 64), of_nat (128 + c mod 64)]
      else None)"

text \<open>\<^verbatim>\<open>s.encode("utf-8")\<close>; \<open>None\<close> stands for \<^verbatim>\<open>UnicodeEncodeError\<close>.\<close>

fun utf8_encode :: "pystr \<Rightarrow> bytes option" where
  "utf8_encode [] = Some []"
| "utf8_encode (c # cs) =
     (case utf8_encode_cp c of
        None \<Rightarrow> None
      | Some b \<Rightarrow> (case utf8_encode cs of None \<Rightarrow> None | Some bs \<Rightarrow> Some (b @ bs)))"

definition is_cont :: "byte \<Rightarrow> bool" where
  "is_cont b = (128 \<le> unat b \<and> unat b < 192)"

text \<open>
  \<^verbatim>\<open>b.decode("utf-8")\<close> with the default strict error handler; \<open>None\<close> stands for
  \<^verbatim>\<open>UnicodeDecodeError\<close> (stray continuation bytes, truncated or overlong sequences,
  surrogates, code points past U+10FFFF).
\<close>

fun utf8_decode :: "bytes \<Rightarrow> pystr option" where
  "utf8_decode [] = Some []"
| "utf8_decode (b0 # rest) =
     (if unat b0 < 128 then map_option ((#) (unat b0)) (utf8_decode rest)
      else if unat b0 < 194 then None
      else if unat b0 < 224 then
        (case rest of
           b1 # r \<Rightarrow>
             if is_cont b1
             then map_option ((#) ((unat b0 - 192) * 64 + (unat b1 - 128))) (utf8_decode r)
             else None
         | _ \<Rightarrow> None)
      else if unat b0 < 240 then
        (case rest of
           b1 # b2 # r \<Rightarrow>
             if is_cont b1 \<and> is_cont b2
                \<and> 2048 \<le> (unat b0 - 224) * 4096 + (unat b1 - 128) * 64 + (unat b2 - 128)
                \<and> \<not> is_surrogate ((unat b0 - 224) * 4096 + (unat b1 - 128) * 64 + (unat b2 - 128))
             then map_option
                    ((#) ((unat b0 - 224) * 4096 + (unat b1 - 128) * 64 + (unat b2 - 128)))
                    (utf8_decode r)
             else None
         | _ \<Rightarrow> None)
      else if unat b0 < 245 then
        (case rest of
           b1 # b2 # b3 # r \<Rightarrow>
             if is_cont b1 \<and> is_cont b2 \<and> is_cont b3
                \<and> 65536 \<le> (unat b0 - 240) * 262144 + (unat b1 - 128) * 4096
                              + (unat b2 - 128) * 64 + (unat b3 - 128)
                \<and> (unat b0 - 240) * 262144 + (unat b1 - 128) * 4096
                     + (unat b2 - 128) * 64 + (unat b3 - 128) < 1114112
             then map_option
                    ((#) ((unat b0 - 240) * 262144 + (unat b1 - 128) * 4096
                            + (unat b2 - 128) * 64 + (unat b3 - 128)))
                    (utf8_decode r)
             else None
         | _ \<Rightarrow> None)
      else None)"

subsection \<open>\<^verbatim>\<open>base64.urlsafe_b64encode\<close> and \<^verbatim>\<open>base64.urlsafe_b64decode\<close>\<close>

text \<open>The standard alphabet (\<^verbatim>\<open>table_b2a_base64\<close> of \<^verbatim>\<open>binascii\<close>) and the pad character.\<close>

definition b64_table :: "nat list" where
  "b64_table = pystr_of ''ABCDEFGHIJKLMNOPQRSTUVWXYZabcdefghijklmnopqrstuvwxyz0123456789+/''"

definition BASE64_PAD :: "byte" where
  "BASE64_PAD = 61"

definition b2a :: "nat \<Rightarrow> byte" where
  "b2a i = of_nat (b64_table ! i)"

fun index_of :: "'a \<Rightarrow> 'a list \<Rightarrow> nat option" where
  "index_of x [] = None"
| "index_of x (y # ys) = (if x = y then Some 0 else map_option Suc (index_of x ys))"

text \<open>The reverse table: the 6-bit value of an alphabet character, \<open>None\<close> for any other byte.\<close>

definition a2b :: "byte \<Rightarrow> nat option" where
  "a2b c = index_of (unat c) b64_table"

text \<open>\<^verbatim>\<open>binascii.b2a_base64(s, newline=False)\<close>: three bytes become four characters, with
  \<^verbatim>\<open>=\<close> padding after a last group of one or two bytes.\<close>

fun b64encode :: "bytes \<Rightarrow> bytes" where
  "b64encode [] = []"
| "b64encode [x] =
     [b2a (unat x div 4), b2a (unat x mod 4 * 16), BASE64_PAD, BASE64_PAD]"
| "b64encode [x, y] =
     [b2a (unat x div 4), b2a (unat x mod 4 * 16 + unat y div 16),
      b2a (unat y mod 16 * 4), BASE64_PAD]"
| "b64encode (x # y # z # rest) =
     [b2a (unat x div 4), b2a (unat x mod 4 * 16 + unat y div 16),
      b2a (unat y mod 16 * 4 + unat z div 64), b2a (unat z mod 64)] @ b64encode rest"

text \<open>
  \<^verbatim>\<open>binascii.a2b_base64(s)\<close> in its default, non-strict mode (what \<^verbatim>\<open>base64.b64decode\<close>
  calls with \<^verbatim>\<open>validate=False\<close>): bytes outside the alphabet are skipped, a pad that
  completes a quad ends the input, and leftover characters of an unfinished quad raise
  \<^verbatim>\<open>binascii.Error\<close> (\<open>None\<close>).  The state is the position in the quad, the bits left
  over from the previous character, the count of pads seen and the output so far.
\<close>

fun a2b_loop :: "nat \<Rightarrow> nat \<Rightarrow> nat \<Rightarrow> bytes \<Rightarrow> bytes \<Rightarrow> bytes option" where
  "a2b_loop quad_pos leftchar pads out [] = (if quad_pos \<noteq> 0 then None else Some out)"
| "a2b_loop quad_pos leftchar pads out (c # cs) =
     (if c = BASE64_PAD then
        (if 2 \<le> quad_pos \<and> 4 \<le> quad_pos + (pads + 1) then Some out
         else a2b_loop quad_pos leftchar (if 2 \<le> quad_pos then pads + 1 else pads) out cs)
      else
        (case a2b c of
           None \<Rightarrow> a2b_loop quad_pos leftchar pads out cs
         | Some v \<Rightarrow>
             if quad_pos = 0 then a2b_loop 1 v 0 out cs
             else if quad_pos = 1 then
               a2b_loop 2 (v mod 16) 0 (out @ [of_nat (leftchar * 4 + v div 16)]) cs
             else if quad_pos = 2 then
               a2b_loop 3 (v mod 4) 0 (out @ [of_nat (leftchar * 16 + v div 4)]) cs
             else a2b_loop 0 0 0 (out @ [of_nat (leftchar * 64 + v)]) cs))"

definition a2b_base64 :: "bytes \<Rightarrow> bytes option" where
  "a2b_base64 s = a2b_loop 0 0 0 [] s"

text \<open>The two translation tables of \<^verbatim>\<open>base64.py\<close>: \<^verbatim>\<open>+/\<close> to \<^verbatim>\<open>-_\<close> and back.\<close>

definition urlsafe_encode_translation :: "byte \<Rightarrow> byte" where
  "urlsafe_encode_translation c = (if c = 43 then 45 else if c = 47 then 95 else c)"

definition urlsafe_decode_translation :: "byte \<Rightarrow> byte" where
  "urlsafe_decode_translation c = (if c = 45 then 43 else if c = 95 then 47 else c)"

definition urlsafe_b64encode :: "bytes \<Rightarrow> bytes" where
  "urlsafe_b64encode s = map urlsafe_encode_translation (b64encode s)"

definition urlsafe_b64decode :: "bytes \<Rightarrow> bytes option" where
  "urlsafe_b64decode s = a2b_base64 (map urlsafe_decode_translation s)"

text \<open>The bytes that \<^verbatim>\<open>b64encode\<close> produces: alphabet characters and the pad.\<close>

definition b64_char :: "byte \<Rightarrow> bool" where
  "b64_char c = (c \<in> set (map b2a [0..<64]) \<or> c = BASE64_PAD)"

section \<open>The Python values the fields handle\<close>

text \<open>
  \<open>PObj t s\<close> is any other object (a float, a date, a \<^verbatim>\<open>Decimal\<close>), given by what the
  module observes of it: its truth value \<open>t\<close> and the text \<open>s\<close> that \<^verbatim>\<open>str()\<close> returns.
  A \<^verbatim>\<open>dict\<close> is the list of its items in insertion order.
\<close>

datatype pyval =
    PNone
  | PBool bool
  | PInt int
  | PStr pystr
  | PList "pyval list"
  | PDict "(pystr \<times> pyval) list"
  | PObj bool pystr

text \<open>Python's truth value of an object (\<^verbatim>\<open>if value:\<close>).\<close>

fun truthy :: "pyval \<Rightarrow> bool" where
  "truthy PNone = False"
| "truthy (PBool b) = b"
| "truthy (PInt i) = (i \<noteq> 0)"
| "truthy (PStr s) = (s \<noteq> [])"
| "truthy (PList xs) = (xs \<noteq> [])"
| "truthy (PDict kvs) = (kvs \<noteq> [])"
| "truthy (PObj t s) = t"

text \<open>The decimal digits of a natural number, and \<^verbatim>\<open>str(i)\<close> for an \<^verbatim>\<open>int\<close>.\<close>

fun digits :: "nat \<Rightarrow> pystr" where
  "digits n = (if n < 10 then [48 + n] else digits (n div 10) @ [48 + n mod 10])"

definition str_int :: "int \<Rightarrow> pystr" where
  "str_int i = (if i < 0 then 45 # digits (nat (- i)) else digits (nat i))"

section \<open>The libraries the module is written against\<close>

text \<open>
  The cryptographic primitives of the \<^verbatim>\<open>cryptography\<close> package and the text form of
  containers are parameters of the model:
  \<^item> \<open>pbkdf2_hmac_sha256 length salt iterations key_material\<close> is
    \<^verbatim>\<open>PBKDF2HMAC(algorithm=SHA256(), length, salt, iterations).derive(key_material)\<close>;
  \<^item> \<open>gcm_seal key nonce data\<close> is AES-GCM with no associated data: the ciphertext
    followed by the 16-byte tag (the call is taken to return: its refusal of data of 2 GiB
    or more is outside the model);
  \<^item> \<open>gcm_open key nonce data\<close> opens such a value, \<open>None\<close> when the tag does not
    authenticate (\<^verbatim>\<open>InvalidTag\<close>);
  \<^item> \<open>container_str v\<close> is \<^verbatim>\<open>str(v)\<close> of a list or a dict.
\<close>

record lib =
  pbkdf2_hmac_sha256 :: "nat \<Rightarrow> bytes \<Rightarrow> nat \<Rightarrow> bytes \<Rightarrow> bytes"
  gcm_seal :: "bytes \<Rightarrow> bytes \<Rightarrow> bytes \<Rightarrow> bytes"
  gcm_open :: "bytes \<Rightarrow> bytes \<Rightarrow> bytes \<Rightarrow> bytes option"
  container_str :: "pyval \<Rightarrow> pystr"

text \<open>What the module relies on: the derived key has the requested length and, for a 32-byte
  key and a 12-byte nonce, sealing adds the 16-byte tag and opening a sealed value under the
  same key and nonce returns the data.\<close>

definition lib_ok :: "lib \<Rightarrow> bool" where
  "lib_ok L =
     ((\<forall>n salt iters km. length (pbkdf2_hmac_sha256 L n salt iters km) = n)
      \<and> (\<forall>key nonce data. length key = 32 \<and> length nonce = 12 \<longrightarrow>
             length (gcm_seal L key nonce data) = length data + 16
             \<and> gcm_open L key nonce (gcm_seal L key nonce data) = Some data))"

text \<open>\<^verbatim>\<open>AESGCM(key)\<close>: the constructor refuses a key that is not 128, 192 or 256 bits long.\<close>

definition AESGCM :: "bytes \<Rightarrow> error + bytes" where
  "AESGCM key =
     (if length key = 16 \<or> length key = 24 \<or> length key = 32 then Inr key
      else Inl (ValueError ''AESGCM key must be 128, 192, or 256 bits.''))"

definition aesgcm_encrypt :: "lib \<Rightarrow> bytes \<Rightarrow> bytes \<Rightarrow> bytes \<Rightarrow> bytes" where
  "aesgcm_encrypt L key nonce data = gcm_seal L key nonce data"

text \<open>\<^verbatim>\<open>aesgcm.decrypt(nonce, data, None)\<close>: data shorter than the tag raises \<^verbatim>\<open>InvalidTag\<close>
  before the cipher runs.  \<open>None\<close> is any exception of the call.\<close>

definition aesgcm_decrypt :: "lib \<Rightarrow> bytes \<Rightarrow> bytes \<Rightarrow> bytes \<Rightarrow> bytes option" where
  "aesgcm_decrypt L key nonce data =
     (if length data < 16 then None else gcm_open L key nonce data)"

text \<open>\<^verbatim>\<open>os.urandom(n)\<close>: the system's entropy is a stream of bytes, and a call takes the
  next \<open>n\<close> of them.\<close>

type_synonym rng = "byte stream"

definition os_urandom :: "nat \<Rightarrow> rng \<Rightarrow> bytes \<times> rng" where
  "os_urandom n s = (stake n s, sdrop n s)"

text \<open>\<^verbatim>\<open>str(value)\<close>.\<close>

fun py_str :: "lib \<Rightarrow> pyval \<Rightarrow> pystr" where
  "py_str L PNone = pystr_of ''None''"
| "py_str L (PBool b) = (if b then pystr_of ''True'' else pystr_of ''False'')"
| "py_str L (PInt i) = str_int i"
| "py_str L (PStr s) = s"
| "py_str L (PObj t s) = s"
| "py_str L v = container_str L v"

section \<open>\<^verbatim>\<open>EncryptedFieldMixin\<close>\<close>

subsection \<open>\<^verbatim>\<open>keys\<close>\<close>

text \<open>The Django settings the property reads.  \<^verbatim>\<open>SALT_KEY\<close> is a list or a single string;
  \<^verbatim>\<open>SECRET_KEY_FALLBACKS\<close> may be absent (\<^verbatim>\<open>getattr\<close> then gives the empty list).
  \<^verbatim>\<open>SECRET_KEY\<close> is a string, empty when the project has set none.\<close>

datatype salt_setting = SaltStr pystr | SaltList "pystr list"

record settings =
  SECRET_KEY :: pystr
  SECRET_KEY_FALLBACKS :: "pystr list option"
  SALT_KEY :: salt_setting

definition salt_keys_of :: "settings \<Rightarrow> pystr list" where
  "salt_keys_of st = (case SALT_KEY st of SaltList l \<Rightarrow> l | SaltStr s \<Rightarrow> [s])"

text \<open>The line \<^verbatim>\<open>secret_keys = [settings.SECRET_KEY] + getattr(settings, "SECRET_KEY_FALLBACKS", list())\<close>.
  The attribute \<^verbatim>\<open>settings.SECRET_KEY\<close> is read through Django's settings object, whose
  \<^verbatim>\<open>__getattr__\<close> raises \<^verbatim>\<open>ImproperlyConfigured\<close> when the value is empty, so the line raises
  before any list is built.\<close>

definition secret_keys_of :: "settings \<Rightarrow> error + pystr list" where
  "secret_keys_of st =
     (if SECRET_KEY st = []
      then Inl (ImproperlyConfigured ''The SECRET_KEY setting must not be empty.'')
      else Inr (SECRET_KEY st
                  # (case SECRET_KEY_FALLBACKS st of None \<Rightarrow> [] | Some l \<Rightarrow> l)))"

text \<open>The inner loop, \<^verbatim>\<open>for salt_key in salt_keys\<close>, appending to \<^verbatim>\<open>keys\<close>.\<close>

fun salt_loop :: "lib \<Rightarrow> pystr \<Rightarrow> pystr list \<Rightarrow> bytes list \<Rightarrow> error + bytes list" where
  "salt_loop L secret_key [] keys = Inr keys"
| "salt_loop L secret_key (salt_key # rest) keys =
     (case utf8_encode salt_key of
        None \<Rightarrow> Inl UnicodeEncodeError
      | Some salt \<Rightarrow>
          (case utf8_encode secret_key of
             None \<Rightarrow> Inl UnicodeEncodeError
           | Some km \<Rightarrow>
               salt_loop L secret_key rest
                 (keys @ [pbkdf2_hmac_sha256 L 32 salt 100000 km])))"

text \<open>The outer loop, \<^verbatim>\<open>for secret_key in secret_keys\<close>.\<close>

fun secret_loop :: "lib \<Rightarrow> pystr list \<Rightarrow> pystr list \<Rightarrow> bytes list \<Rightarrow> error + bytes list" where
  "secret_loop L [] salt_keys keys = Inr keys"
| "secret_loop L (secret_key # rest) salt_keys keys =
     (case salt_loop L secret_key salt_keys keys of
        Inl e \<Rightarrow> Inl e
      | Inr keys' \<Rightarrow> secret_loop L rest salt_keys keys')"

text \<open>The property: the salts are read first, then the secrets, then the two loops run.\<close>

definition keys :: "lib \<Rightarrow> settings \<Rightarrow> error + bytes list" where
  "keys L st =
     (let salt_keys = salt_keys_of st in
      case secret_keys_of st of
        Inl e \<Rightarrow> Inl e
      | Inr secret_keys \<Rightarrow> secret_loop L secret_keys salt_keys [])"

subsection \<open>\<^verbatim>\<open>encrypt_value\<close>\<close>

text \<open>\<open>ks\<close> is the value of \<^verbatim>\<open>self.keys\<close>.  The result carries the entropy left.\<close>

definition encrypt_value :: "lib \<Rightarrow> bytes list \<Rightarrow> pystr \<Rightarrow> rng \<Rightarrow> (error + pystr) \<times> rng" where
  "encrypt_value L ks plaintext s =
     (case ks of
        [] \<Rightarrow> (Inl IndexError, s)
      | key # _ \<Rightarrow>
          (case AESGCM key of
             Inl e \<Rightarrow> (Inl e, s)
           | Inr aesgcm \<Rightarrow>
               (case os_urandom 12 s of
                  (nonce, s') \<Rightarrow>
                    (case utf8_encode plaintext of
                       None \<Rightarrow> (Inl UnicodeEncodeError, s')
                     | Some data \<Rightarrow>
                         (case utf8_decode
                                 (urlsafe_b64encode (nonce @ aesgcm_encrypt L aesgcm nonce data)) of
                            None \<Rightarrow> (Inl UnicodeDecodeError, s')
                          | Some token \<Rightarrow> (Inr token, s'))))))"

subsection \<open>\<^verbatim>\<open>decrypt_value\<close>\<close>

text \<open>The loop \<^verbatim>\<open>for key in self.keys\<close>: any exception of \<^verbatim>\<open>aesgcm.decrypt\<close> or of
  \<^verbatim>\<open>plaintext.decode\<close> moves on to the next key; the constructor stands outside the
  \<^verbatim>\<open>try\<close>.\<close>

fun key_loop :: "lib \<Rightarrow> bytes \<Rightarrow> bytes \<Rightarrow> bytes list \<Rightarrow> error + pystr" where
  "key_loop L nonce ciphertext [] =
     Inl (ValueError ''Decryption failed with all provided keys.'')"
| "key_loop L nonce ciphertext (key # rest) =
     (case AESGCM key of
        Inl e \<Rightarrow> Inl e
      | Inr aesgcm \<Rightarrow>
          (case aesgcm_decrypt L aesgcm nonce ciphertext of
             None \<Rightarrow> key_loop L nonce ciphertext rest
           | Some plaintext \<Rightarrow>
               (case utf8_decode plaintext of
                  None \<Rightarrow> key_loop L nonce ciphertext rest
                | Some text \<Rightarrow> Inr text)))"

text \<open>The first \<^verbatim>\<open>try\<close> covers both \<^verbatim>\<open>encrypted_value.encode("utf-8")\<close> and the base64
  decoding.\<close>

definition b64_of_text :: "pystr \<Rightarrow> bytes option" where
  "b64_of_text encrypted_value =
     (case utf8_encode encrypted_value of
        None \<Rightarrow> None
      | Some raw \<Rightarrow> urlsafe_b64decode raw)"

definition decrypt_value :: "lib \<Rightarrow> bytes list \<Rightarrow> pystr \<Rightarrow> error + pystr" where
  "decrypt_value L ks encrypted_value =
     (case b64_of_text encrypted_value of
        None \<Rightarrow> Inr encrypted_value
      | Some encrypted \<Rightarrow> key_loop L (take 12 encrypted) (drop 12 encrypted) ks)"

subsection \<open>\<^verbatim>\<open>get_prep_value\<close>\<close>

text \<open>\<open>super_get_prep_value\<close> is \<^verbatim>\<open>super().get_prep_value\<close>, the method of the Django field
  class the mixin is combined with.\<close>

definition get_prep_value ::
  "lib \<Rightarrow> (pyval \<Rightarrow> error + pyval) \<Rightarrow> bytes list \<Rightarrow> pyval \<Rightarrow> rng \<Rightarrow> (error + pyval) \<times> rng" where
  "get_prep_value L super_get_prep_value ks value s =
     (case super_get_prep_value value of
        Inl e \<Rightarrow> (Inl e, s)
      | Inr v \<Rightarrow>
          if truthy v then
            (case encrypt_value L ks (case v of PStr t \<Rightarrow> t | _ \<Rightarrow> py_str L v) s of
               (Inl e, s') \<Rightarrow> (Inl e, s')
             | (Inr token, s') \<Rightarrow> (Inr (PStr token), s'))
          else (Inr PNone, s))"

section \<open>\<^verbatim>\<open>EncryptedJSONField\<close>\<close>

subsection \<open>\<^verbatim>\<open>_encrypt_values\<close>\<close>

text \<open>The dict and list comprehensions evaluate their elements in order, each call of
  \<^verbatim>\<open>encrypt_value\<close> taking its nonce from the entropy the previous one left; an exception
  ends the walk.\<close>

function encrypt_values :: "lib \<Rightarrow> bytes list \<Rightarrow> pyval \<Rightarrow> rng \<Rightarrow> (error + pyval) \<times> rng"
  and encrypt_items ::
    "lib \<Rightarrow> bytes list \<Rightarrow> (pystr \<times> pyval) list \<Rightarrow> rng \<Rightarrow> (error + (pystr \<times> pyval) list) \<times> rng"
  and encrypt_elems :: "lib \<Rightarrow> bytes list \<Rightarrow> pyval list \<Rightarrow> rng \<Rightarrow> (error + pyval list) \<times> rng"
  where
  "encrypt_values L ks (PDict kvs) s =
     (case encrypt_items L ks kvs s of
        (Inl e, s') \<Rightarrow> (Inl e, s')
      | (Inr kvs', s') \<Rightarrow> (Inr (PDict kvs'), s'))"
| "encrypt_values L ks (PList xs) s =
     (case encrypt_elems L ks xs s of
        (Inl e, s') \<Rightarrow> (Inl e, s')
      | (Inr xs', s') \<Rightarrow> (Inr (PList xs'), s'))"
| "encrypt_values L ks PNone s =
     (case encrypt_value L ks (py_str L PNone) s of
        (Inl e, s') \<Rightarrow> (Inl e, s')
      | (Inr token, s') \<Rightarrow> (Inr (PStr token), s'))"
| "encrypt_values L ks (PBool b) s =
     (case encrypt_value L ks (py_str L (PBool b)) s of
        (Inl e, s') \<Rightarrow> (Inl e, s')
      | (Inr token, s') \<Rightarrow> (Inr (PStr token), s'))"
| "encrypt_values L ks (PInt i) s =
     (case encrypt_value L ks (py_str L (PInt i)) s of
        (Inl e, s') \<Rightarrow> (Inl e, s')
      | (Inr token, s') \<Rightarrow> (Inr (PStr token), s'))"
| "encrypt_values L ks (PStr t) s =
     (case encrypt_value L ks (py_str L (PStr t)) s of
        (Inl e, s') \<Rightarrow> (Inl e, s')
      | (Inr token, s') \<Rightarrow> (Inr (PStr token), s'))"
| "encrypt_values L ks (PObj t r) s =
     (case encrypt_value L ks (py_str L (PObj t r)) s of
        (Inl e, s') \<Rightarrow> (Inl e, s')
      | (Inr token, s') \<Rightarrow> (Inr (PStr token), s'))"
| "encrypt_items L ks [] s = (Inr [], s)"
| "encrypt_items L ks ((key, data) # rest) s =
     (case encrypt_values L ks data s of
        (Inl e, s') \<Rightarrow> (Inl e, s')
      | (Inr data', s') \<Rightarrow>
          (case encrypt_items L ks rest s' of
             (Inl e, s'') \<Rightarrow> (Inl e, s'')
           | (Inr rest', s'') \<Rightarrow> (Inr ((key, data') # rest'), s'')))"
| "encrypt_elems L ks [] s = (Inr [], s)"
| "encrypt_elems L ks (data # rest) s =
     (case encrypt_values L ks data s of
        (Inl e, s') \<Rightarrow> (Inl e, s')
      | (Inr data', s') \<Rightarrow>
          (case encrypt_elems L ks rest s' of
             (Inl e, s'') \<Rightarrow> (Inl e, s'')
           | (Inr rest', s'') \<Rightarrow> (Inr (data' # rest'), s'')))"
  by pat_completeness auto
termination
  by (relation "measure (\<lambda>x. case x of
         Inl (L, ks, v, s) \<Rightarrow> 2 * size v
       | Inr (Inl (L, ks, kvs, s)) \<Rightarrow> 2 * size_list (size_prod (\<lambda>k. 0) size) kvs + 1
       | Inr (Inr (L, ks, xs, s)) \<Rightarrow> 2 * size_list size xs + 1)")
     auto

subsection \<open>\<^verbatim>\<open>_decrypt_values\<close>\<close>

text \<open>The walk back.  An exception of \<^verbatim>\<open>decrypt_value\<close> at a leaf is caught there and the
  leaf is returned as it is.\<close>

fun decrypt_values :: "lib \<Rightarrow> bytes list \<Rightarrow> pyval \<Rightarrow> pyval" where
  "decrypt_values L ks PNone = PNone"
| "decrypt_values L ks (PDict kvs) =
     PDict (map (\<lambda>kv. (fst kv, decrypt_values L ks (snd kv))) kvs)"
| "decrypt_values L ks (PList xs) = PList (map (decrypt_values L ks) xs)"
| "decrypt_values L ks v =
     (case decrypt_value L ks (py_str L v) of Inl e \<Rightarrow> v | Inr text \<Rightarrow> PStr text)"

section \<open>The shape and the text of a document\<close>

text \<open>The document whose leaves are replaced by their text \<^verbatim>\<open>str(leaf)\<close>, keys, order and
  nesting kept: what the claim on structural fidelity compares the walk there and back
  with.\<close>

fun textual :: "lib \<Rightarrow> pyval \<Rightarrow> pyval" where
  "textual L (PDict kvs) = PDict (map (\<lambda>kv. (fst kv, textual L (snd kv))) kvs)"
| "textual L (PList xs) = PList (map (textual L) xs)"
| "textual L v = PStr (py_str L v)"

text \<open>The shape of a document: its keys, order and nesting, with every leaf blanked.\<close>

fun shape :: "pyval \<Rightarrow> pyval" where
  "shape (PDict kvs) = PDict (map (\<lambda>kv. (fst kv, shape (snd kv))) kvs)"
| "shape (PList xs) = PList (map shape xs)"
| "shape v = PNone"

text \<open>The leaves of a document, in the order of the walk.\<close>

fun leaves :: "pyval \<Rightarrow> pyval list" where
  "leaves (PDict kvs) = concat (map (\<lambda>kv. leaves (snd kv)) kvs)"
| "leaves (PList xs) = concat (map leaves xs)"
| "leaves v = [v]"

text \<open>Every leaf of the document has a text that UTF-8 can encode.\<close>

fun leaves_encodable :: "lib \<Rightarrow> pyval \<Rightarrow> bool" where
  "leaves_encodable L (PDict kvs) = list_all (\<lambda>kv. leaves_encodable L (snd kv)) kvs"
| "leaves_encodable L (PList xs) = list_all (leaves_encodable L) xs"
| "leaves_encodable L v = (utf8_encode (py_str L v) \<noteq> None)"

section \<open>Notions the properties are stated with\<close>

text \<open>The key list the mixin works with once \<^verbatim>\<open>keys\<close> has been computed: it is not empty and
  every key has the 32 bytes that the key derivation asks for.\<close>

definition key_material :: "bytes list \<Rightarrow> bool" where
  "key_material ks = (ks \<noteq> [] \<and> list_all (\<lambda>k. length k = 32) ks)"


text \<open>A key authenticates a text when the text decodes and \<^verbatim>\<open>aesgcm.decrypt\<close> accepts what
  follows the first 12 bytes, with these as the nonce.\<close>

definition authenticates :: "lib \<Rightarrow> bytes \<Rightarrow> pystr \<Rightarrow> bool" where
  "authenticates L key text =
     (case b64_of_text text of
        None \<Rightarrow> False
      | Some encrypted \<Rightarrow>
          aesgcm_decrypt L key (take 12 encrypted) (drop 12 encrypted) \<noteq> None)"

text \<open>The token that \<^verbatim>\<open>encrypt_value\<close> builds from a key, a nonce and the encoded
  plaintext.\<close>

definition token_of :: "lib \<Rightarrow> bytes \<Rightarrow> bytes \<Rightarrow> bytes \<Rightarrow> pystr" where
  "token_of L key nonce data =
     map unat (urlsafe_b64encode (nonce @ aesgcm_encrypt L key nonce data))"

text \<open>The walk there and back succeeds on a document, from any state of the entropy source,
  and gives the document of the texts.\<close>

definition there_and_back :: "lib \<Rightarrow> bytes list \<Rightarrow> pyval \<Rightarrow> bool" where
  "there_and_back L ks v =
     (\<forall>s. \<exists>enc s'. encrypt_values L ks v s = (Inr enc, s')
                    \<and> decrypt_values L ks enc = textual L v)"

section \<open>A small library for concrete runs\<close>

text \<open>An instance of the library parameters that can be evaluated: the tag is made of the
  first 16 bytes of key and nonce, the derived key of the key material and the salt.  It is
  only used to run the model on concrete inputs.\<close>

definition toy_tag :: "bytes \<Rightarrow> bytes \<Rightarrow> bytes" where
  "toy_tag key nonce = take 16 (key @ nonce @ replicate 16 0)"

definition toy_seal :: "bytes \<Rightarrow> bytes \<Rightarrow> bytes \<Rightarrow> bytes" where
  "toy_seal key nonce data = data @ toy_tag key nonce"

definition toy_open :: "bytes \<Rightarrow> bytes \<Rightarrow> bytes \<Rightarrow> bytes option" where
  "toy_open key nonce data =
     (if 16 \<le> length data \<and> drop (length data - 16) data = toy_tag key nonce
      then Some (take (length data - 16) data) else None)"

definition toy_pbkdf2 :: "nat \<Rightarrow> bytes \<Rightarrow> nat \<Rightarrow> bytes \<Rightarrow> bytes" where
  "toy_pbkdf2 n salt iters km = take n (km @ salt @ replicate n 0)"

definition toy_lib :: lib where
  "toy_lib = \<lparr> pbkdf2_hmac_sha256 = toy_pbkdf2,
               gcm_seal = toy_seal,
               gcm_open = toy_open,
               container_str = (\<lambda>v. []) \<rparr>"

definition key_a :: bytes where
  "key_a = replicate 32 1"

definition key_b :: bytes where
  "key_b = replicate 32 2"


text \<open>A configuration whose list of salts is empty.\<close>

definition no_salts :: settings where
  "no_salts = \<lparr> SECRET_KEY = pystr_of ''s1'', SECRET_KEY_FALLBACKS = None, SALT_KEY = SaltList [] \<rparr>"

text \<open>A configuration whose primary secret is empty.\<close>

definition no_secret :: settings where
  "no_secret = \<lparr> SECRET_KEY = [], SECRET_KEY_FALLBACKS = Some [pystr_of ''s2''],
                  SALT_KEY = SaltList [pystr_of ''a''] \<rparr>"

text \<open>A nested document with a number, a string and a null.\<close>

definition sample_doc :: pyval where
  "sample_doc =
     PDict [(pystr_of ''a'', PList [PInt 1, PStr (pystr_of ''x'')]), (pystr_of ''b'', PNone)]"

section \<open>Facts about the codecs\<close>

subsection \<open>UTF-8: decoding undoes encoding\<close>

lemma unat_of_nat_byte: "n < 256 \<Longrightarrow> unat (of_nat n :: byte) = n"
  by (simp add: unat_of_nat)

lemma utf8_decode_2:
  "unat x0 = n0 \<Longrightarrow> unat x1 = n1 \<Longrightarrow> 194 \<le> n0 \<Longrightarrow> n0 < 224 \<Longrightarrow> 128 \<le> n1 \<Longrightarrow> n1 < 192 \<Longrightarrow>
   utf8_decode (x0 # x1 # rest) = map_option ((#) ((n0 - 192) * 64 + (n1 - 128))) (utf8_decode rest)"
  by (simp add: is_cont_def)

lemma utf8_decode_3:
  "unat x0 = n0 \<Longrightarrow> unat x1 = n1 \<Longrightarrow> unat x2 = n2 \<Longrightarrow> 224 \<le> n0 \<Longrightarrow> n0 < 240 \<Longrightarrow>
   128 \<le> n1 \<Longrightarrow> n1 < 192 \<Longrightarrow> 128 \<le> n2 \<Longrightarrow> n2 < 192 \<Longrightarrow>
   2048 \<le> (n0 - 224) * 4096 + (n1 - 128) * 64 + (n2 - 128) \<Longrightarrow>
   \<not> is_surrogate ((n0 - 224) * 4096 + (n1 - 128) * 64 + (n2 - 128)) \<Longrightarrow>
   utf8_decode (x0 # x1 # x2 # rest) =
     map_option ((#) ((n0 - 224) * 4096 + (n1 - 128) * 64 + (n2 - 128))) (utf8_decode rest)"
  by (simp add: is_cont_def)

lemma utf8_decode_4:
  "unat x0 = n0 \<Longrightarrow> unat x1 = n1 \<Longrightarrow> unat x2 = n2 \<Longrightarrow> unat x3 = n3 \<Longrightarrow> 240 \<le> n0 \<Longrightarrow> n0 < 245 \<Longrightarrow>
   128 \<le> n1 \<Longrightarrow> n1 < 192 \<Longrightarrow> 128 \<le> n2 \<Longrightarrow> n2 < 192 \<Longrightarrow> 128 \<le> n3 \<Longrightarrow> n3 < 192 \<Longrightarrow>
   65536 \<le> (n0 - 240) * 262144 + (n1 - 128) * 4096 + (n2 - 128) * 64 + (n3 - 128) \<Longrightarrow>
   (n0 - 240) * 262144 + (n1 - 128) * 4096 + (n2 - 128) * 64 + (n3 - 128) < 1114112 \<Longrightarrow>
   utf8_decode (x0 # x1 # x2 # x3 # rest) =
     map_option ((#) ((n0 - 240) * 262144 + (n1 - 128) * 4096 + (n2 - 128) * 64 + (n3 - 128)))
       (utf8_decode rest)"
  by (simp add: is_cont_def)

lemma split3: "(c::nat) div 4096 * 4096 + c div 64 mod 64 * 64 + c mod 64 = c"
proof -
  have a: "c div 4096 = c div 64 div 64" by (simp add: div_mult2_eq [symmetric])
  have "c div 64 div 64 * 64 + c div 64 mod 64 = c div 64" by simp
  then have "c div 64 div 64 * 4096 + c div 64 mod 64 * 64 = c div 64 * 64" by linarith
  moreover have "c div 64 * 64 + c mod 64 = c" by simp
  ultimately show ?thesis unfolding a by linarith
qed

lemma split4:
  "(c::nat) div 262144 * 262144 + c div 4096 mod 64 * 4096 + c div 64 mod 64 * 64 + c mod 64 = c"
proof -
  have a: "c div 262144 = c div 4096 div 64" by (simp add: div_mult2_eq [symmetric])
  have "c div 4096 div 64 * 64 + c div 4096 mod 64 = c div 4096" by simp
  then have "c div 4096 div 64 * 262144 + c div 4096 mod 64 * 4096 = c div 4096 * 4096"
    by linarith
  then show ?thesis unfolding a using split3 [of c] by linarith
qed

lemma cont_byte: "m < 64 \<Longrightarrow> unat (of_nat (128 + m) :: byte) = 128 + m"
  by (rule unat_of_nat_byte) simp

lemma utf8_decode_encode_cp:
  assumes "utf8_encode_cp c = Some b"
  shows "utf8_decode (b @ rest) = map_option ((#) c) (utf8_decode rest)"
proof -
  consider (a) "c < 128" | (b) "128 \<le> c" "c < 2048" | (c) "2048 \<le> c" "c < 65536" "\<not> is_surrogate c"
    | (d) "65536 \<le> c" "c < 1114112"
    using assms by (auto simp: utf8_encode_cp_def split: if_splits)
  then show ?thesis
  proof cases
    case a
    have b: "b = [of_nat c]" using assms a by (simp add: utf8_encode_cp_def)
    show ?thesis using a by (simp add: b unat_of_nat_byte)
  next
    case b
    define x0 :: byte where "x0 = of_nat (192 + c div 64)"
    define x1 :: byte where "x1 = of_nat (128 + c mod 64)"
    have bb: "b = [x0, x1]"
      using assms b unfolding x0_def x1_def utf8_encode_cp_def by (simp del: of_nat_add)
    have lt: "c div 64 < 32" using b by (simp add: div_less_iff_less_mult)
    have ge: "2 \<le> c div 64" using div_le_mono [OF b(1), of 64] by simp
    have b0: "unat x0 = 192 + c div 64"
      unfolding x0_def using lt by (intro unat_of_nat_byte) simp
    have b1: "unat x1 = 128 + c mod 64"
      unfolding x1_def by (rule cont_byte) simp
    have "utf8_decode (x0 # x1 # rest) =
        map_option ((#) ((192 + c div 64 - 192) * 64 + (128 + c mod 64 - 128))) (utf8_decode rest)"
      using lt ge by (intro utf8_decode_2 b0 b1) simp_all
    then show ?thesis by (simp add: bb)
  next
    case c
    define x0 :: byte where "x0 = of_nat (224 + c div 4096)"
    define x1 :: byte where "x1 = of_nat (128 + c div 64 mod 64)"
    define x2 :: byte where "x2 = of_nat (128 + c mod 64)"
    have bb: "b = [x0, x1, x2]"
      using assms c unfolding x0_def x1_def x2_def utf8_encode_cp_def by (simp del: of_nat_add)
    have lt: "c div 4096 < 16" using c by (simp add: div_less_iff_less_mult)
    have b0: "unat x0 = 224 + c div 4096"
      unfolding x0_def using lt by (intro unat_of_nat_byte) simp
    have b1: "unat x1 = 128 + c div 64 mod 64"
      unfolding x1_def by (rule cont_byte) simp
    have b2: "unat x2 = 128 + c mod 64"
      unfolding x2_def by (rule cont_byte) simp
    have e: "(224 + c div 4096 - 224) * 4096 + (128 + c div 64 mod 64 - 128) * 64
              + (128 + c mod 64 - 128) = c" using split3 [of c] by simp
    have "utf8_decode (x0 # x1 # x2 # rest) =
        map_option ((#) ((224 + c div 4096 - 224) * 4096 + (128 + c div 64 mod 64 - 128) * 64
              + (128 + c mod 64 - 128))) (utf8_decode rest)"
    proof (rule utf8_decode_3 [OF b0 b1 b2])
      show "224 \<le> 224 + c div 4096" by simp
      show "224 + c div 4096 < 240" using lt by simp
      show "128 \<le> 128 + c div 64 mod 64" by simp
      show "128 + c div 64 mod 64 < 192" by simp
      show "128 \<le> 128 + c mod 64" by simp
      show "128 + c mod 64 < 192" by simp
      show "2048 \<le> (224 + c div 4096 - 224) * 4096 + (128 + c div 64 mod 64 - 128) * 64
              + (128 + c mod 64 - 128)" using c by (simp only: e)
      show "\<not> is_surrogate ((224 + c div 4096 - 224) * 4096 + (128 + c div 64 mod 64 - 128) * 64
              + (128 + c mod 64 - 128))" unfolding e by (rule c)
    qed
    then show ?thesis by (simp only: e bb append_Cons append_Nil)
  next
    case d
    define x0 :: byte where "x0 = of_nat (240 + c div 262144)"
    define x1 :: byte where "x1 = of_nat (128 + c div 4096 mod 64)"
    define x2 :: byte where "x2 = of_nat (128 + c div 64 mod 64)"
    define x3 :: byte where "x3 = of_nat (128 + c mod 64)"
    have bb: "b = [x0, x1, x2, x3]"
      using assms d unfolding x0_def x1_def x2_def x3_def utf8_encode_cp_def
      by (simp del: of_nat_add)
    have lt: "c div 262144 < 5" using d by (simp add: div_less_iff_less_mult)
    have b0: "unat x0 = 240 + c div 262144"
      unfolding x0_def using lt by (intro unat_of_nat_byte) simp
    have b1: "unat x1 = 128 + c div 4096 mod 64"
      unfolding x1_def by (rule cont_byte) simp
    have b2: "unat x2 = 128 + c div 64 mod 64"
      unfolding x2_def by (rule cont_byte) simp
    have b3: "unat x3 = 128 + c mod 64"
      unfolding x3_def by (rule cont_byte) simp
    have e: "(240 + c div 262144 - 240) * 262144 + (128 + c div 4096 mod 64 - 128) * 4096
              + (128 + c div 64 mod 64 - 128) * 64 + (128 + c mod 64 - 128) = c"
      using split4 [of c] by simp
    have "utf8_decode (x0 # x1 # x2 # x3 # rest) =
        map_option ((#) ((240 + c div 262144 - 240) * 262144 + (128 + c div 4096 mod 64 - 128) * 4096
              + (128 + c div 64 mod 64 - 128) * 64 + (128 + c mod 64 - 128))) (utf8_decode rest)"
    proof (rule utf8_decode_4 [OF b0 b1 b2 b3])
      show "240 \<le> 240 + c div 262144" by simp
      show "240 + c div 262144 < 245" using lt by simp
      show "128 \<le> 128 + c div 4096 mod 64" by simp
      show "128 + c div 4096 mod 64 < 192" by simp
      show "128 \<le> 128 + c div 64 mod 64" by simp
      show "128 + c div 64 mod 64 < 192" by simp
      show "128 \<le> 128 + c mod 64" by simp
      show "128 + c mod 64 < 192" by simp
      show "65536 \<le> (240 + c div 262144 - 240) * 262144 + (128 + c div 4096 mod 64 - 128) * 4096
              + (128 + c div 64 mod 64 - 128) * 64 + (128 + c mod 64 - 128)"
        using d by (simp only: e)
      show "(240 + c div 262144 - 240) * 262144 + (128 + c div 4096 mod 64 - 128) * 4096
              + (128 + c div 64 mod 64 - 128) * 64 + (128 + c mod 64 - 128) < 1114112"
        using d by (simp only: e)
    qed
    then show ?thesis by (simp only: e bb append_Cons append_Nil)
  qed
qed

lemma utf8_decode_encode: "utf8_encode cs = Some bs \<Longrightarrow> utf8_decode bs = Some cs"
proof (induction cs arbitrary: bs)
  case Nil
  then show ?case by simp
next
  case (Cons c cs)
  then obtain b bs' where b: "utf8_encode_cp c = Some b" and bs': "utf8_encode cs = Some bs'"
    and eq: "bs = b @ bs'"
    by (auto split: option.splits)
  show ?case using Cons.IH [OF bs'] utf8_decode_encode_cp [OF b, of bs'] eq by simp
qed

lemma utf8_decode_ascii:
  "\<forall>b \<in> set bs. unat b < 128 \<Longrightarrow> utf8_decode bs = Some (map unat bs)"
  by (induction bs) simp_all

lemma utf8_encode_ascii:
  "\<forall>b \<in> set bs. unat b < 128 \<Longrightarrow> utf8_encode (map unat bs) = Some bs"
  by (induction bs) (simp_all add: utf8_encode_cp_def)

subsection \<open>Base64: decoding undoes encoding\<close>

lemma b64_table_length: "length b64_table = 64" by (simp add: b64_table_def pystr_of_def)
lemma b64_table_distinct: "distinct b64_table" by (simp add: b64_table_def pystr_of_def)
lemma b64_table_ascii: "\<forall>c \<in> set b64_table. c < 128 \<and> c \<noteq> 61 \<and> c \<noteq> 45 \<and> c \<noteq> 95"
  by (simp add: b64_table_def pystr_of_def)

lemma index_of_nth: "distinct xs \<Longrightarrow> i < length xs \<Longrightarrow> index_of (xs ! i) xs = Some i"
proof (induction xs arbitrary: i)
  case Nil then show ?case by simp
next
  case (Cons x xs)
  show ?case
  proof (cases i)
    case 0 then show ?thesis by simp
  next
    case (Suc j)
    then have "xs ! j \<in> set xs" using Cons.prems by simp
    then have "xs ! j \<noteq> x" using Cons.prems by auto
    then show ?thesis using Suc Cons by simp
  qed
qed

lemma b2a_props:
  assumes "i < 64"
  shows "unat (b2a i) = b64_table ! i" and "unat (b2a i) < 128" and "b2a i \<noteq> BASE64_PAD"
    and "b2a i \<noteq> 45" and "b2a i \<noteq> 95" and "a2b (b2a i) = Some i"
proof -
  have mem: "b64_table ! i \<in> set b64_table" using assms by (simp add: b64_table_length)
  then have p: "b64_table ! i < 128" "b64_table ! i \<noteq> 61" "b64_table ! i \<noteq> 45" "b64_table ! i \<noteq> 95"
    using b64_table_ascii by blast+
  show u: "unat (b2a i) = b64_table ! i"
    unfolding b2a_def using p(1) by (intro unat_of_nat_byte) simp
  show "unat (b2a i) < 128" using u p by simp
  show "b2a i \<noteq> BASE64_PAD"
  proof
    assume "b2a i = BASE64_PAD"
    then have "unat (b2a i) = 61" by (simp add: BASE64_PAD_def)
    then show False using u p by simp
  qed
  show "b2a i \<noteq> 45"
  proof
    assume "b2a i = 45"
    then have "unat (b2a i) = 45" by simp
    then show False using u p by simp
  qed
  show "b2a i \<noteq> 95"
  proof
    assume "b2a i = 95"
    then have "unat (b2a i) = 95" by simp
    then show False using u p by simp
  qed
  show "a2b (b2a i) = Some i" unfolding a2b_def u
    using index_of_nth [OF b64_table_distinct, of i] assms by (simp add: b64_table_length)
qed

text \<open>One full group, a last group of two bytes, a last group of one byte.\<close>

lemma sextets:
  fixes x y z :: byte
  shows "unat x div 4 < 64" "unat x mod 4 * 16 + unat y div 16 < 64"
    "unat y mod 16 * 4 + unat z div 64 < 64" "unat z mod 64 < 64"
    "unat x mod 4 * 16 < 64" "unat y mod 16 * 4 < 64"
proof -
  have x: "unat x < 256" and y: "unat y < 256" and z: "unat z < 256"
    using unsigned_less [of x, where ?'a = nat] unsigned_less [of y, where ?'a = nat] unsigned_less [of z, where ?'a = nat] by simp_all
  show "unat x div 4 < 64" using x by (simp add: div_less_iff_less_mult)
  have "unat y div 16 < 16" using y by (simp add: div_less_iff_less_mult)
  moreover have "unat x mod 4 < 4" by simp
  ultimately show "unat x mod 4 * 16 + unat y div 16 < 64" by linarith
  have "unat z div 64 < 4" using z by (simp add: div_less_iff_less_mult)
  moreover have "unat y mod 16 < 16" by simp
  ultimately show "unat y mod 16 * 4 + unat z div 64 < 64" by linarith
  show "unat z mod 64 < 64" by simp
  have "unat x mod 4 < 4" by simp
  then show "unat x mod 4 * 16 < 64" by linarith
  have "unat y mod 16 < 16" by simp
  then show "unat y mod 16 * 4 < 64" by linarith
qed

lemma rebuild:
  fixes x y z :: byte
  shows "(of_nat (unat x div 4 * 4 + (unat x mod 4 * 16 + unat y div 16) div 16) :: byte) = x"
    "(of_nat ((unat x mod 4 * 16 + unat y div 16) mod 16 * 16
               + (unat y mod 16 * 4 + unat z div 64) div 4) :: byte) = y"
    "(of_nat ((unat y mod 16 * 4 + unat z div 64) mod 4 * 64 + unat z mod 64) :: byte) = z"
    "(of_nat (unat x div 4 * 4 + (unat x mod 4 * 16) div 16) :: byte) = x"
    "(of_nat ((unat x mod 4 * 16 + unat y div 16) mod 16 * 16 + (unat y mod 16 * 4) div 4) :: byte) = y"
proof -
  have x: "unat x < 256" and y: "unat y < 256" and z: "unat z < 256"
    using unsigned_less [of x, where ?'a = nat] unsigned_less [of y, where ?'a = nat] unsigned_less [of z, where ?'a = nat] by simp_all
  have y16: "unat y div 16 < 16" using y by (simp add: div_less_iff_less_mult)
  have z64: "unat z div 64 < 4" using z by (simp add: div_less_iff_less_mult)
  have a: "(unat x mod 4 * 16 + unat y div 16) div 16 = unat x mod 4" using y16 by simp
  have b: "(unat x mod 4 * 16 + unat y div 16) mod 16 = unat y div 16" using y16 by simp
  have c: "(unat y mod 16 * 4 + unat z div 64) div 4 = unat y mod 16" using z64 by simp
  have d: "(unat y mod 16 * 4 + unat z div 64) mod 4 = unat z div 64" using z64 by simp
  show "(of_nat (unat x div 4 * 4 + (unat x mod 4 * 16 + unat y div 16) div 16) :: byte) = x"
    unfolding a by simp
  show "(of_nat ((unat x mod 4 * 16 + unat y div 16) mod 16 * 16
               + (unat y mod 16 * 4 + unat z div 64) div 4) :: byte) = y"
    unfolding b c by simp
  show "(of_nat ((unat y mod 16 * 4 + unat z div 64) mod 4 * 64 + unat z mod 64) :: byte) = z"
    unfolding d by simp
  show "(of_nat (unat x div 4 * 4 + (unat x mod 4 * 16) div 16) :: byte) = x"
    by simp
  show "(of_nat ((unat x mod 4 * 16 + unat y div 16) mod 16 * 16 + (unat y mod 16 * 4) div 4) :: byte) = y"
    unfolding b by simp
qed


lemma a2b_loop_char:
  assumes "v < 64"
  shows "a2b_loop quad_pos leftchar pads out (b2a v # cs) =
     (if quad_pos = 0 then a2b_loop 1 v 0 out cs
      else if quad_pos = 1 then
        a2b_loop 2 (v mod 16) 0 (out @ [of_nat (leftchar * 4 + v div 16)]) cs
      else if quad_pos = 2 then
        a2b_loop 3 (v mod 4) 0 (out @ [of_nat (leftchar * 16 + v div 4)]) cs
      else a2b_loop 0 0 0 (out @ [of_nat (leftchar * 64 + v)]) cs)"
  using b2a_props(3,6) [OF assms] by simp

lemma a2b_loop_group:
  assumes "v0 < 64" "v1 < 64" "v2 < 64" "v3 < 64"
  shows "a2b_loop 0 l p out (b2a v0 # b2a v1 # b2a v2 # b2a v3 # cs) =
     a2b_loop 0 0 0 (out @ [of_nat (v0 * 4 + v1 div 16), of_nat (v1 mod 16 * 16 + v2 div 4),
                            of_nat (v2 mod 4 * 64 + v3)]) cs"
  by (simp add: a2b_loop_char assms del: a2b_loop.simps of_nat_add of_nat_mult)

lemma a2b_loop_pad2: "a2b_loop 2 l 0 out [BASE64_PAD, BASE64_PAD] = Some out"
  by simp

lemma a2b_loop_pad3: "a2b_loop 3 l 0 out [BASE64_PAD] = Some out"
  by simp

lemma a2b_loop_last2:
  assumes "v0 < 64" "v1 < 64" "v2 < 64"
  shows "a2b_loop 0 l p out [b2a v0, b2a v1, b2a v2, BASE64_PAD] =
     Some (out @ [of_nat (v0 * 4 + v1 div 16), of_nat (v1 mod 16 * 16 + v2 div 4)])"
  by (simp add: a2b_loop_char assms a2b_loop_pad3 del: a2b_loop.simps of_nat_add of_nat_mult)

lemma a2b_loop_last1:
  assumes "v0 < 64" "v1 < 64"
  shows "a2b_loop 0 l p out [b2a v0, b2a v1, BASE64_PAD, BASE64_PAD] =
     Some (out @ [of_nat (v0 * 4 + v1 div 16)])"
  by (simp add: a2b_loop_char assms a2b_loop_pad2 del: a2b_loop.simps of_nat_add of_nat_mult)

lemma a2b_loop_b64encode: "a2b_loop 0 0 0 out (b64encode bs) = Some (out @ bs)"
proof (induction bs arbitrary: out rule: b64encode.induct)
  case 1
  then show ?case by simp
next
  case (2 x)
  show ?case
    unfolding b64encode.simps
    by (simp only: a2b_loop_last1 [OF sextets(1) sextets(5)] rebuild(4))
next
  case (3 x y)
  show ?case
    unfolding b64encode.simps
    by (simp only: a2b_loop_last2 [OF sextets(1) sextets(2) sextets(6)] rebuild(1,5))
next
  case (4 x y z rest)
  show ?case
    unfolding b64encode.simps append_Cons append_Nil
    by (simp only: a2b_loop_group [OF sextets(1) sextets(2) sextets(3) sextets(4)] rebuild(1,2,3)
        "4.IH") simp
qed

lemma b64_char_b2a: "i < 64 \<Longrightarrow> b64_char (b2a i)"
  unfolding b64_char_def by simp

lemma b64_char_pad: "b64_char BASE64_PAD"
  unfolding b64_char_def by simp

lemma b64encode_chars: "\<forall>c \<in> set (b64encode bs). b64_char c"
proof (induction bs rule: b64encode.induct)
  case 1
  then show ?case by simp
next
  case (2 x)
  show ?case
    by (simp add: b64_char_pad b64_char_b2a [OF sextets(1)] b64_char_b2a [OF sextets(5)])
next
  case (3 x y)
  show ?case
    by (simp add: b64_char_pad b64_char_b2a [OF sextets(1)] b64_char_b2a [OF sextets(2)]
        b64_char_b2a [OF sextets(6)])
next
  case (4 x y z rest)
  show ?case
    using 4
    by (simp add: b64_char_b2a [OF sextets(1)] b64_char_b2a [OF sextets(2)]
        b64_char_b2a [OF sextets(3)] b64_char_b2a [OF sextets(4)])
qed

lemma urlsafe_translation_char:
  assumes "b64_char c"
  shows "urlsafe_decode_translation (urlsafe_encode_translation c) = c"
proof -
  have "c \<noteq> 45 \<and> c \<noteq> 95"
    using assms b2a_props(4,5) by (auto simp: BASE64_PAD_def b64_char_def)
  then show ?thesis
    by (simp add: urlsafe_decode_translation_def urlsafe_encode_translation_def)
qed

lemma urlsafe_b64decode_encode: "urlsafe_b64decode (urlsafe_b64encode bs) = Some bs"
proof -
  have "map urlsafe_decode_translation (map urlsafe_encode_translation (b64encode bs))
        = b64encode bs"
    using b64encode_chars [of bs] by (simp add: map_idI urlsafe_translation_char)
  then show ?thesis
    using a2b_loop_b64encode [of "[]" bs]
    by (simp add: urlsafe_b64decode_def urlsafe_b64encode_def a2b_base64_def)
qed

lemma urlsafe_b64encode_ascii: "\<forall>c \<in> set (urlsafe_b64encode bs). unat c < 128"
proof -
  have "unat (urlsafe_encode_translation c) < 128"
    if "b64_char c" for c
    using that b2a_props(2)
    by (auto simp: urlsafe_encode_translation_def BASE64_PAD_def b64_char_def)
  then show ?thesis using b64encode_chars [of bs] by (auto simp: urlsafe_b64encode_def)
qed

section \<open>Facts about the mixin\<close>

text \<open>The token text of a byte string reads back as that byte string.\<close>

lemma b64_of_text_token: "b64_of_text (map unat (urlsafe_b64encode bs)) = Some bs"
  using utf8_encode_ascii [OF urlsafe_b64encode_ascii, of bs]
  by (simp add: b64_of_text_def urlsafe_b64decode_encode)

lemma AESGCM_32: "length key = 32 \<Longrightarrow> AESGCM key = Inr key"
  by (simp add: AESGCM_def)

lemma encrypt_value_Cons:
  assumes "length key = 32" and "utf8_encode plaintext = Some data"
  shows "encrypt_value L (key # rest) plaintext s =
           (Inr (token_of L key (stake 12 s) data), sdrop 12 s)"
  using assms utf8_decode_ascii [OF urlsafe_b64encode_ascii]
  by (simp add: encrypt_value_def AESGCM_32 os_urandom_def token_of_def)

lemma encrypt_value_Inr:
  assumes "encrypt_value L ks plaintext s = (Inr token, s')"
  shows "\<exists>key rest data. ks = key # rest \<and> AESGCM key = Inr key \<and> utf8_encode plaintext = Some data
           \<and> token = token_of L key (stake 12 s) data \<and> s' = sdrop 12 s"
proof -
  obtain key rest where ks: "ks = key # rest"
    using assms by (cases ks) (auto simp: encrypt_value_def)
  have a: "AESGCM key = Inr key"
    using assms ks by (auto simp: encrypt_value_def AESGCM_def split: if_splits)
  obtain data where d: "utf8_encode plaintext = Some data"
    using assms ks a by (cases "utf8_encode plaintext") (auto simp: encrypt_value_def os_urandom_def)
  show ?thesis
    using assms ks a d utf8_decode_ascii [OF urlsafe_b64encode_ascii]
    by (auto simp: encrypt_value_def os_urandom_def token_of_def)
qed

lemma b64_of_text_token_of:
  "b64_of_text (token_of L key nonce data) = Some (nonce @ gcm_seal L key nonce data)"
  by (simp add: token_of_def b64_of_text_token aesgcm_encrypt_def)

lemma aesgcm_decrypt_seal:
  assumes "lib_ok L" and "length key = 32" and "length nonce = 12"
  shows "aesgcm_decrypt L key nonce (gcm_seal L key nonce data) = Some data"
  using assms by (simp add: lib_ok_def aesgcm_decrypt_def)

lemma decrypt_value_token:
  assumes "length nonce = 12"
  shows "decrypt_value L ks (token_of L key nonce data) =
           key_loop L nonce (gcm_seal L key nonce data) ks"
  using assms by (simp add: decrypt_value_def b64_of_text_token_of)

lemma key_loop_hit:
  assumes "AESGCM key = Inr key" and "aesgcm_decrypt L key nonce ct = Some data"
    and "utf8_decode data = Some text"
  shows "key_loop L nonce ct (key # rest) = Inr text"
  using assms by simp

lemma take_padded_length: "length (take n (a @ b @ replicate n x)) = n"
  by (simp add: min_def)

lemma toy_tag_length: "length (toy_tag key nonce) = 16"
  unfolding toy_tag_def by (rule take_padded_length)

lemma toy_open_seal: "toy_open key nonce (toy_seal key nonce data) = Some data"
  by (simp add: toy_open_def toy_seal_def toy_tag_length)

lemma toy_pbkdf2_length: "length (toy_pbkdf2 n salt iters km) = n"
  unfolding toy_pbkdf2_def by (rule take_padded_length)

lemma toy_seal_length: "length (toy_seal key nonce data) = length data + 16"
  by (simp add: toy_seal_def toy_tag_length)

lemma lib_ok_toy: "lib_ok toy_lib"
  by (simp add: lib_ok_def toy_lib_def toy_open_seal toy_pbkdf2_length toy_seal_length)

lemma key_material_a: "key_material [key_a]"
  by (simp add: key_material_def key_a_def)

lemma key_loop_all_fail:
  assumes "list_all (\<lambda>k. length k = 32) ks"
    and "list_all (\<lambda>k. aesgcm_decrypt L k nonce ct = None) ks"
  shows "key_loop L nonce ct ks = Inl (ValueError ''Decryption failed with all provided keys.'')"
  using assms by (induction ks) (simp_all add: AESGCM_32)

lemma key_loop_first_hit:
  assumes "list_all (\<lambda>k. length k = 32) ks" and "key \<in> set ks"
    and "aesgcm_decrypt L key nonce ct = Some data" and "utf8_decode data = Some text"
    and "\<forall>k \<in> set ks. k \<noteq> key \<longrightarrow> aesgcm_decrypt L k nonce ct = None"
  shows "key_loop L nonce ct ks = Inr text"
  using assms
proof (induction ks)
  case Nil
  then show ?case by simp
next
  case (Cons k ks)
  show ?case
  proof (cases "k = key")
    case True
    then show ?thesis using Cons.prems by (simp add: AESGCM_32)
  next
    case False
    then have "key \<in> set ks" and "aesgcm_decrypt L k nonce ct = None"
      using Cons.prems by auto
    then show ?thesis using Cons by (simp add: AESGCM_32)
  qed
qed

lemma authenticates_token_of:
  assumes "length nonce = 12"
  shows "authenticates L k (token_of L key nonce data)
         = (aesgcm_decrypt L k nonce (gcm_seal L key nonce data) \<noteq> None)"
  using assms by (simp add: authenticates_def b64_of_text_token_of)

lemma hello_bytes: "utf8_encode (pystr_of ''hello'') = Some (bytes_of ''hello'')"
  by (simp add: pystr_of_def bytes_of_def utf8_encode_cp_def)

lemma key_b_rejects_key_a:
  "aesgcm_decrypt toy_lib key_b nonce (gcm_seal toy_lib key_a nonce data) = None"
  by (simp add: aesgcm_decrypt_def toy_lib_def toy_seal_length)
    (simp add: toy_open_def toy_seal_def toy_tag_length toy_tag_def key_a_def key_b_def)

lemma decrypt_value_not_decodable:
  "b64_of_text s = None \<Longrightarrow> decrypt_value L ks s = Inr s"
  by (simp add: decrypt_value_def)

lemma decrypt_value_short:
  assumes "b64_of_text s = Some encrypted" and "length encrypted < 28"
    and "list_all (\<lambda>k. length k = 32) ks"
  shows "decrypt_value L ks s = Inl (ValueError ''Decryption failed with all provided keys.'')"
proof -
  have "list_all (\<lambda>k. aesgcm_decrypt L k (take 12 encrypted) (drop 12 encrypted) = None) ks"
  proof -
    have "length (drop 12 encrypted) < 16" using assms(2) by simp
    then show ?thesis by (simp only: aesgcm_decrypt_def if_True list_all_iff) simp
  qed
  then show ?thesis
    using assms(1) key_loop_all_fail [OF assms(3)] by (simp add: decrypt_value_def)
qed

lemma abcd_decodes: "b64_of_text (pystr_of ''abcd'') = Some [105, 183, 29]"
  by code_simp

lemma not_base64_fails: "b64_of_text (pystr_of ''not base64 at all!!'') = None"
  by code_simp








lemma keys_no_secret:
  "SECRET_KEY st = []
   \<Longrightarrow> keys L st = Inl (ImproperlyConfigured ''The SECRET_KEY setting must not be empty.'')"
  by (simp add: keys_def secret_keys_of_def)

lemma keys_no_salts:
  "SECRET_KEY st \<noteq> [] \<Longrightarrow> SALT_KEY st = SaltList [] \<Longrightarrow> keys L st = Inr []"
proof -
  assume s: "SECRET_KEY st \<noteq> []" and a: "SALT_KEY st = SaltList []"
  have "secret_loop L secrets [] [] = Inr []" for secrets
    by (induction secrets) simp_all
  then show ?thesis using s a by (simp add: keys_def secret_keys_of_def salt_keys_of_def)
qed


lemma token_of_inj:
  assumes "token_of L key n1 d1 = token_of L key' n2 d2" and "length n1 = length n2"
  shows "n1 = n2"
proof -
  have "Some (n1 @ gcm_seal L key n1 d1) = Some (n2 @ gcm_seal L key' n2 d2)"
    using assms(1) b64_of_text_token_of [of L key n1 d1] b64_of_text_token_of [of L key' n2 d2]
    by simp
  then show ?thesis using assms(2) by simp
qed

lemma stake_sconst_differ: "stake 12 (sconst (0 :: byte)) \<noteq> stake 12 (sconst 1)"
  by (simp add: eval_nat_numeral)

lemma leaf_there_and_back:
  assumes "lib_ok L" and "key_material ks" and "utf8_encode text \<noteq> None"
  shows "\<exists>token s'. encrypt_value L ks text s = (Inr token, s')
           \<and> decrypt_value L ks token = Inr text
           \<and> decrypt_values L ks (PStr token) = PStr text"
proof -
  obtain key rest where ks: "ks = key # rest" and len: "length key = 32"
    using assms(2) by (cases ks) (auto simp: key_material_def)
  obtain data where d: "utf8_encode text = Some data" using assms(3) by auto
  have e: "encrypt_value L ks text s = (Inr (token_of L key (stake 12 s) data), sdrop 12 s)"
    unfolding ks by (rule encrypt_value_Cons [OF len d])
  have "decrypt_value L ks (token_of L key (stake 12 s) data) = Inr text"
    unfolding ks
    by (simp only: decrypt_value_token length_stake
        key_loop_hit [OF AESGCM_32 [OF len] aesgcm_decrypt_seal [OF assms(1) len length_stake]
          utf8_decode_encode [OF d]])
  then show ?thesis using e by simp
qed

lemma elems_there_and_back:
  assumes "\<forall>x \<in> set xs. there_and_back L ks x"
  shows "\<exists>ys s'. encrypt_elems L ks xs s = (Inr ys, s')
           \<and> map (decrypt_values L ks) ys = map (textual L) xs"
  using assms
proof (induction xs arbitrary: s)
  case Nil
  then show ?case by simp
next
  case (Cons x xs)
  obtain y s1 where y: "encrypt_values L ks x s = (Inr y, s1)"
    "decrypt_values L ks y = textual L x"
    using Cons.prems unfolding there_and_back_def by (meson list.set_intros(1))
  obtain ys s2 where ys: "encrypt_elems L ks xs s1 = (Inr ys, s2)"
    "map (decrypt_values L ks) ys = map (textual L) xs"
    using Cons.IH [of s1] Cons.prems by auto
  show ?case using y ys by simp
qed

lemma items_there_and_back:
  assumes "\<forall>kv \<in> set kvs. there_and_back L ks (snd kv)"
  shows "\<exists>kvs' s'. encrypt_items L ks kvs s = (Inr kvs', s')
           \<and> map (\<lambda>kv. (fst kv, decrypt_values L ks (snd kv))) kvs'
               = map (\<lambda>kv. (fst kv, textual L (snd kv))) kvs"
  using assms
proof (induction kvs arbitrary: s)
  case Nil
  then show ?case by simp
next
  case (Cons kv kvs)
  obtain key data where kv: "kv = (key, data)" by (cases kv)
  obtain y s1 where y: "encrypt_values L ks data s = (Inr y, s1)"
    "decrypt_values L ks y = textual L data"
    using Cons.prems kv unfolding there_and_back_def by fastforce
  obtain kvs' s2 where ys: "encrypt_items L ks kvs s1 = (Inr kvs', s2)"
    "map (\<lambda>kv. (fst kv, decrypt_values L ks (snd kv))) kvs'
       = map (\<lambda>kv. (fst kv, textual L (snd kv))) kvs"
    using Cons.IH [of s1] Cons.prems by auto
  show ?case using y ys kv by simp
qed

lemma leaf_walk:
  assumes "lib_ok L" and "key_material ks" and "utf8_encode (py_str L v) \<noteq> None"
    and enc: "\<And>s. encrypt_values L ks v s =
                (case encrypt_value L ks (py_str L v) s of
                   (Inl e, s') \<Rightarrow> (Inl e, s')
                 | (Inr token, s') \<Rightarrow> (Inr (PStr token), s'))"
    and tx: "textual L v = PStr (py_str L v)"
  shows "there_and_back L ks v"
  unfolding there_and_back_def
proof
  fix s
  obtain token s' where t: "encrypt_value L ks (py_str L v) s = (Inr token, s')"
    "decrypt_values L ks (PStr token) = PStr (py_str L v)"
    using leaf_there_and_back [OF assms(1,2,3), of s] by blast
  have "encrypt_values L ks v s = (Inr (PStr token), s')" by (simp add: enc t(1))
  then show "\<exists>enc s'. encrypt_values L ks v s = (Inr enc, s')
               \<and> decrypt_values L ks enc = textual L v"
    using t(2) tx by simp
qed

lemma walk_there_and_back:
  assumes "lib_ok L" and "key_material ks"
  shows "leaves_encodable L v \<Longrightarrow> there_and_back L ks v"
proof (induction v)
  case PNone
  then show ?case by (intro leaf_walk assms) simp_all
next
  case (PBool b)
  then show ?case by (intro leaf_walk assms) simp_all
next
  case (PInt i)
  then show ?case by (intro leaf_walk assms) simp_all
next
  case (PStr t)
  then show ?case by (intro leaf_walk assms) simp_all
next
  case (PObj t r)
  then show ?case by (intro leaf_walk assms) simp_all
next
  case (PList xs)
  then have all: "\<forall>x \<in> set xs. there_and_back L ks x" by (simp add: list_all_iff)
  show ?case
    unfolding there_and_back_def
  proof
    fix s
    obtain ys s' where "encrypt_elems L ks xs s = (Inr ys, s')"
      "map (decrypt_values L ks) ys = map (textual L) xs"
      using elems_there_and_back [OF all, of s] by blast
    then show "\<exists>enc s'. encrypt_values L ks (PList xs) s = (Inr enc, s')
                 \<and> decrypt_values L ks enc = textual L (PList xs)"
      by simp
  qed
next
  case (PDict kvs)
  have all: "\<forall>kv \<in> set kvs. there_and_back L ks (snd kv)"
  proof
    fix kv assume m: "kv \<in> set kvs"
    obtain key data where kv: "kv = (key, data)" by (cases kv)
    have "leaves_encodable L data" using PDict.prems m kv by (auto simp: list_all_iff)
    then show "there_and_back L ks (snd kv)" using PDict.IH [of kv data] m kv by simp
  qed
  show ?case
    unfolding there_and_back_def
  proof
    fix s
    obtain kvs' s' where "encrypt_items L ks kvs s = (Inr kvs', s')"
      "map (\<lambda>kv. (fst kv, decrypt_values L ks (snd kv))) kvs'
         = map (\<lambda>kv. (fst kv, textual L (snd kv))) kvs"
      using items_there_and_back [OF all, of s] by blast
    then show "\<exists>enc s'. encrypt_values L ks (PDict kvs) s = (Inr enc, s')
                 \<and> decrypt_values L ks enc = textual L (PDict kvs)"
      by simp
  qed
qed

lemma shape_textual: "shape (textual L v) = shape v"
proof (induction v)
  case (PDict kvs)
  have "shape (textual L (snd kv)) = shape (snd kv)" if "kv \<in> set kvs" for kv
    using PDict [of kv "snd kv"] that by (cases kv) simp
  then show ?case by (simp add: comp_def)
qed (simp_all add: comp_def)

lemma leaves_textual: "leaves (textual L v) = map (\<lambda>l. PStr (py_str L l)) (leaves v)"
proof (induction v)
  case (PList xs)
  then show ?case by (simp add: comp_def map_concat cong: map_cong)
next
  case (PDict kvs)
  have "leaves (textual L (snd kv)) = map (\<lambda>l. PStr (py_str L l)) (leaves (snd kv))"
    if "kv \<in> set kvs" for kv
    using PDict [of kv "snd kv"] that by (cases kv) simp
  then show ?case by (simp add: comp_def map_concat cong: map_cong)
qed simp_all

lemma sample_doc_encodable: "leaves_encodable toy_lib sample_doc"
  by (simp add: sample_doc_def pystr_of_def str_int_def utf8_encode_cp_def)

section \<open>Properties of the fields\<close>

text \<open>
  Claim C1 (round trip).  For every text \<open>p\<close> that UTF-8 can encode, the empty string
  included, and every key list with its 32-byte keys, \<^verbatim>\<open>encrypt_value(p)\<close> returns a token,
  whatever nonce the entropy source gives, and \<^verbatim>\<open>decrypt_value\<close> of that token under the same
  key list returns \<open>p\<close>.  The cipher is any one that opens what it sealed.
\<close>

theorem roundtrip:
  assumes "lib_ok L" and "key_material ks" and "utf8_encode p \<noteq> None"
  shows "\<exists>token s'. encrypt_value L ks p s = (Inr token, s') \<and> decrypt_value L ks token = Inr p"
proof -
  obtain key rest where ks: "ks = key # rest" and len: "length key = 32"
    using assms(2) by (cases ks) (auto simp: key_material_def)
  obtain data where d: "utf8_encode p = Some data" using assms(3) by auto
  have e: "encrypt_value L ks p s = (Inr (token_of L key (stake 12 s) data), sdrop 12 s)"
    unfolding ks by (rule encrypt_value_Cons [OF len d])
  have "decrypt_value L ks (token_of L key (stake 12 s) data) = Inr p"
    unfolding ks
    by (simp only: decrypt_value_token length_stake
        key_loop_hit [OF AESGCM_32 [OF len] aesgcm_decrypt_seal [OF assms(1) len length_stake]
          utf8_decode_encode [OF d]])
  then show ?thesis using e by blast
qed

theorem roundtrip_witness:
  "lib_ok toy_lib \<and> key_material [key_a] \<and> utf8_encode (pystr_of ''hello'') \<noteq> None
   \<and> (\<exists>token s'. encrypt_value toy_lib [key_a] (pystr_of ''hello'') (sconst 0) = (Inr token, s')
        \<and> decrypt_value toy_lib [key_a] token = Inr (pystr_of ''hello''))
   \<and> utf8_encode [] \<noteq> None
   \<and> (\<exists>token s'. encrypt_value toy_lib [key_a] [] (sconst 0) = (Inr token, s')
        \<and> decrypt_value toy_lib [key_a] token = Inr [])"
proof -
  have h: "utf8_encode (pystr_of ''hello'') \<noteq> None"
    by (simp add: pystr_of_def utf8_encode_cp_def)
  have n: "utf8_encode [] \<noteq> None" by simp
  show ?thesis
    using roundtrip [OF lib_ok_toy key_material_a h, of "sconst 0"]
      roundtrip [OF lib_ok_toy key_material_a n, of "sconst 0"]
      lib_ok_toy key_material_a h n
    by blast
qed

text \<open>
  Claim C2 (key rotation).  A token that \<^verbatim>\<open>encrypt_value\<close> produced under a key list whose
  first key is \<open>key\<close> decrypts to the plaintext under every list of 32-byte keys that contains
  \<open>key\<close>, at any position, provided no other key of that list authenticates the token: the
  loop returns the first plaintext that authenticates, and that a foreign key does not
  authenticate is the cipher's guarantee, which holds with overwhelming probability only and
  is therefore a hypothesis here.
\<close>

theorem key_rotation:
  assumes "lib_ok L"
    and "encrypt_value L (key # old_rest) p s = (Inr token, s')"
    and "key \<in> set new_ks"
    and "list_all (\<lambda>k. length k = 32) new_ks"
    and "\<forall>k \<in> set new_ks. k \<noteq> key \<longrightarrow> \<not> authenticates L k token"
  shows "decrypt_value L new_ks token = Inr p"
proof -
  obtain data where d: "utf8_encode p = Some data"
    and t: "token = token_of L key (stake 12 s) data"
    using encrypt_value_Inr [OF assms(2)] by auto
  have rej: "\<forall>k \<in> set new_ks. k \<noteq> key \<longrightarrow>
               aesgcm_decrypt L k (stake 12 s) (gcm_seal L key (stake 12 s) data) = None"
    using assms(5) unfolding t by (simp add: authenticates_token_of)
  have len: "length key = 32" using assms(3,4) by (simp add: list_all_iff)
  have "key_loop L (stake 12 s) (gcm_seal L key (stake 12 s) data) new_ks = Inr p"
    by (rule key_loop_first_hit [OF assms(4) assms(3) aesgcm_decrypt_seal [OF assms(1) len length_stake]
          utf8_decode_encode [OF d] rej])
  then show ?thesis unfolding t by (simp add: decrypt_value_token)
qed

theorem key_rotation_witness:
  "lib_ok toy_lib
   \<and> encrypt_value toy_lib [key_a] (pystr_of ''hello'') (sconst 0)
       = (Inr (token_of toy_lib key_a (stake 12 (sconst 0)) (bytes_of ''hello'')), sdrop 12 (sconst 0))
   \<and> key_a \<in> set [key_b, key_a]
   \<and> list_all (\<lambda>k. length k = 32) [key_b, key_a]
   \<and> \<not> authenticates toy_lib key_b (token_of toy_lib key_a (stake 12 (sconst 0)) (bytes_of ''hello''))
   \<and> decrypt_value toy_lib [key_b, key_a]
        (token_of toy_lib key_a (stake 12 (sconst 0)) (bytes_of ''hello'')) = Inr (pystr_of ''hello'')"
proof -
  have e: "encrypt_value toy_lib [key_a] (pystr_of ''hello'') (sconst 0)
       = (Inr (token_of toy_lib key_a (stake 12 (sconst 0)) (bytes_of ''hello'')), sdrop 12 (sconst 0))"
    by (rule encrypt_value_Cons [OF _ hello_bytes]) (simp add: key_a_def)
  have m: "key_a \<in> set [key_b, key_a]" by simp
  have l: "list_all (\<lambda>k. length k = 32) [key_b, key_a]" by (simp add: key_a_def key_b_def)
  have r: "\<not> authenticates toy_lib key_b (token_of toy_lib key_a (stake 12 (sconst 0)) (bytes_of ''hello''))"
    by (simp add: authenticates_token_of key_b_rejects_key_a)
  have r': "\<forall>k \<in> set [key_b, key_a]. k \<noteq> key_a \<longrightarrow>
      \<not> authenticates toy_lib k (token_of toy_lib key_a (stake 12 (sconst 0)) (bytes_of ''hello''))"
    using r by simp
  show ?thesis
    using key_rotation [OF lib_ok_toy e m l r'] lib_ok_toy e m l r by blast
qed

text \<open>
  Claim C3 (undecodable and short inputs), as stated, fails: the text \<^verbatim>\<open>abcd\<close> decodes to
  three bytes, fewer than 12, and \<^verbatim>\<open>decrypt_value\<close> raises \<^verbatim>\<open>ValueError\<close> instead of
  returning the text.  The code has no check of the decoded length; the nonce is then short,
  the ciphertext empty, and every key fails.
\<close>

theorem short_input_counterexample:
  "b64_of_text (pystr_of ''abcd'') = Some [105, 183, 29]
   \<and> length [105 :: byte, 183, 29] < 12
   \<and> decrypt_value toy_lib [key_a] (pystr_of ''abcd'')
       = Inl (ValueError ''Decryption failed with all provided keys.'')
   \<and> decrypt_value toy_lib [key_a] (pystr_of ''abcd'') \<noteq> Inr (pystr_of ''abcd'')"
proof -
  have "decrypt_value toy_lib [key_a] (pystr_of ''abcd'')
       = Inl (ValueError ''Decryption failed with all provided keys.'')"
    by (rule decrypt_value_short [OF abcd_decodes]) (simp_all add: key_a_def)
  then show ?thesis using abcd_decodes by simp
qed

text \<open>
  Claim C3 as amended.  When the text cannot be decoded (it cannot be encoded as UTF-8, or
  base64 decoding raises), \<^verbatim>\<open>decrypt_value\<close> returns the text unchanged.  When it decodes to
  fewer than 12 bytes, \<^verbatim>\<open>decrypt_value\<close> raises \<^verbatim>\<open>ValueError\<close> under every list of 32-byte
  keys.
\<close>

theorem passthrough:
  "(b64_of_text s = None \<longrightarrow> decrypt_value L ks s = Inr s)
   \<and> (b64_of_text s = Some encrypted \<and> length encrypted < 12 \<and> list_all (\<lambda>k. length k = 32) ks
        \<longrightarrow> decrypt_value L ks s = Inl (ValueError ''Decryption failed with all provided keys.''))"
  using decrypt_value_not_decodable [of s L ks] decrypt_value_short [of s encrypted ks L]
  by auto

theorem passthrough_witness:
  "b64_of_text (pystr_of ''not base64 at all!!'') = None
   \<and> decrypt_value toy_lib [key_a] (pystr_of ''not base64 at all!!'')
        = Inr (pystr_of ''not base64 at all!!'')
   \<and> b64_of_text (pystr_of ''abcd'') = Some [105, 183, 29]
   \<and> length [105 :: byte, 183, 29] < 12
   \<and> list_all (\<lambda>k. length k = 32) [key_a]
   \<and> decrypt_value toy_lib [key_a] (pystr_of ''abcd'')
        = Inl (ValueError ''Decryption failed with all provided keys.'')"
proof -
  have l: "list_all (\<lambda>k. length k = 32) [key_a]" by (simp add: key_a_def)
  have s: "length [105 :: byte, 183, 29] < 12" by simp
  show ?thesis
    using passthrough [of "pystr_of ''not base64 at all!!''" toy_lib "[key_a]"]
      passthrough [of "pystr_of ''abcd''" toy_lib "[key_a]" "[105, 183, 29]"]
      not_base64_fails abcd_decodes l s
    by blast
qed

text \<open>
  Claim C4 (every key fails).  When the text decodes to at least 12 bytes and no key of the list
  authenticates it, \<^verbatim>\<open>decrypt_value\<close> raises \<^verbatim>\<open>ValueError\<close> with the message
  \<^verbatim>\<open>Decryption failed with all provided keys.\<close> (the source's exception for what the
  specification calls a decryption error); it does not return the input.
\<close>

theorem exhaustion:
  assumes "b64_of_text s = Some encrypted" and "12 \<le> length encrypted"
    and "list_all (\<lambda>k. length k = 32) ks"
    and "\<forall>k \<in> set ks. \<not> authenticates L k s"
  shows "decrypt_value L ks s = Inl (ValueError ''Decryption failed with all provided keys.'')"
proof -
  have "list_all (\<lambda>k. aesgcm_decrypt L k (take 12 encrypted) (drop 12 encrypted) = None) ks"
    using assms(1,4) by (simp add: authenticates_def list_all_iff)
  then show ?thesis
    using assms(1) key_loop_all_fail [OF assms(3)] by (simp add: decrypt_value_def)
qed

theorem exhaustion_witness:
  "b64_of_text (token_of toy_lib key_a (stake 12 (sconst 7)) (bytes_of ''hello''))
     = Some (stake 12 (sconst 7) @ gcm_seal toy_lib key_a (stake 12 (sconst 7)) (bytes_of ''hello''))
   \<and> 12 \<le> length (stake 12 (sconst (7 :: byte))
                  @ gcm_seal toy_lib key_a (stake 12 (sconst 7)) (bytes_of ''hello''))
   \<and> list_all (\<lambda>k. length k = 32) [key_b]
   \<and> \<not> authenticates toy_lib key_b (token_of toy_lib key_a (stake 12 (sconst 7)) (bytes_of ''hello''))
   \<and> decrypt_value toy_lib [key_b] (token_of toy_lib key_a (stake 12 (sconst 7)) (bytes_of ''hello''))
       = Inl (ValueError ''Decryption failed with all provided keys.'')"
proof -
  have d: "b64_of_text (token_of toy_lib key_a (stake 12 (sconst 7)) (bytes_of ''hello''))
     = Some (stake 12 (sconst 7) @ gcm_seal toy_lib key_a (stake 12 (sconst 7)) (bytes_of ''hello''))"
    by (rule b64_of_text_token_of)
  have n: "12 \<le> length (stake 12 (sconst (7 :: byte))
                  @ gcm_seal toy_lib key_a (stake 12 (sconst 7)) (bytes_of ''hello''))"
    by simp
  have l: "list_all (\<lambda>k. length k = 32) [key_b]" by (simp add: key_b_def)
  have r: "\<not> authenticates toy_lib key_b
             (token_of toy_lib key_a (stake 12 (sconst 7)) (bytes_of ''hello''))"
    by (simp add: authenticates_token_of key_b_rejects_key_a)
  have r': "\<forall>k \<in> set [key_b]. \<not> authenticates toy_lib k
             (token_of toy_lib key_a (stake 12 (sconst 7)) (bytes_of ''hello''))"
    using r by simp
  show ?thesis using exhaustion [OF d n l r'] d n l r by blast
qed



text \<open>
  Claim C8 (configuration error), as stated, fails: with a non-empty primary secret and an
  empty list of salts, \<^verbatim>\<open>keys\<close> raises nothing and returns the empty key list; the failure comes
  later, as an \<^verbatim>\<open>IndexError\<close> of \<^verbatim>\<open>encrypt_value\<close>.
\<close>

theorem empty_salts_counterexample:
  "SECRET_KEY no_salts \<noteq> [] \<and> salt_keys_of no_salts = []
   \<and> keys toy_lib no_salts = Inr []
   \<and> encrypt_value toy_lib [] (pystr_of ''hello'') (sconst 0) = (Inl IndexError, sconst 0)"
proof -
  have s: "SECRET_KEY no_salts \<noteq> []" by (simp add: no_salts_def pystr_of_def)
  have a: "SALT_KEY no_salts = SaltList []" by (simp add: no_salts_def)
  show ?thesis
    using keys_no_salts [OF s a] s a by (simp add: salt_keys_of_def encrypt_value_def)
qed

text \<open>
  Claim C8 as amended.  An empty primary secret is refused when \<^verbatim>\<open>keys\<close> reads it: the
  property raises \<^verbatim>\<open>ImproperlyConfigured\<close>, whatever the salts are.  A non-empty primary secret
  is the first element of the list of secrets, which is therefore never empty.  When the primary
  secret is non-empty and the list of salts is empty, \<^verbatim>\<open>keys\<close> returns the empty list without
  an error; \<^verbatim>\<open>encrypt_value\<close> then raises \<^verbatim>\<open>IndexError\<close> at \<^verbatim>\<open>self.keys[0]\<close>, before it draws a
  nonce, and \<^verbatim>\<open>decrypt_value\<close> of a token raises \<^verbatim>\<open>ValueError\<close>.
\<close>

theorem empty_salts:
  "(SECRET_KEY st = [] \<longrightarrow>
      keys L st = Inl (ImproperlyConfigured ''The SECRET_KEY setting must not be empty.''))
   \<and> (SECRET_KEY st \<noteq> [] \<longrightarrow> (\<exists>rest. secret_keys_of st = Inr (SECRET_KEY st # rest)))
   \<and> (SECRET_KEY st \<noteq> [] \<and> SALT_KEY st = SaltList [] \<longrightarrow>
        keys L st = Inr [] \<and> encrypt_value L [] p s = (Inl IndexError, s)
        \<and> decrypt_value L [] (token_of L key nonce data)
            = Inl (ValueError ''Decryption failed with all provided keys.''))"
  by (simp add: keys_no_secret keys_no_salts secret_keys_of_def encrypt_value_def
      decrypt_value_def b64_of_text_token_of)

theorem empty_salts_witness:
  "SECRET_KEY no_secret = []
   \<and> keys toy_lib no_secret
       = Inl (ImproperlyConfigured ''The SECRET_KEY setting must not be empty.'')
   \<and> SECRET_KEY no_salts \<noteq> [] \<and> SALT_KEY no_salts = SaltList []
   \<and> secret_keys_of no_salts = Inr [pystr_of ''s1'']
   \<and> keys toy_lib no_salts = Inr []
   \<and> encrypt_value toy_lib [] (pystr_of ''hello'') (sconst 0) = (Inl IndexError, sconst 0)
   \<and> decrypt_value toy_lib [] (token_of toy_lib key_a (stake 12 (sconst 7)) (bytes_of ''hello''))
       = Inl (ValueError ''Decryption failed with all provided keys.'')"
proof -
  have e: "SECRET_KEY no_secret = []" by (simp add: no_secret_def)
  have s: "SECRET_KEY no_salts \<noteq> []" by (simp add: no_salts_def pystr_of_def)
  have a: "SALT_KEY no_salts = SaltList []" by (simp add: no_salts_def)
  have l: "secret_keys_of no_salts = Inr [pystr_of ''s1'']"
    by (simp add: secret_keys_of_def no_salts_def pystr_of_def)
  have "keys toy_lib no_secret
          = Inl (ImproperlyConfigured ''The SECRET_KEY setting must not be empty.'')"
    using empty_salts [of no_secret toy_lib] e by simp
  moreover have "keys toy_lib no_salts = Inr []
      \<and> encrypt_value toy_lib [] (pystr_of ''hello'') (sconst 0) = (Inl IndexError, sconst 0)
      \<and> decrypt_value toy_lib []
            (token_of toy_lib key_a (stake 12 (sconst 7)) (bytes_of ''hello''))
          = Inl (ValueError ''Decryption failed with all provided keys.'')"
    using empty_salts [of no_salts toy_lib "pystr_of ''hello''" "sconst 0"
        key_a "stake 12 (sconst 7)" "bytes_of ''hello''"] s a
    by simp
  ultimately show ?thesis using e s a l by simp
qed

text \<open>
  Claim C9 (fresh nonces give fresh tokens).  For every encodable plaintext and every key
  list with its 32-byte keys, two calls of \<^verbatim>\<open>encrypt_value\<close> whose 12 random bytes differ both
  return a token, and the two tokens differ.  This holds for any cipher: the token is the
  base64 text of the nonce followed by the ciphertext, and base64 is injective.
\<close>

theorem distinct_nonces:
  assumes "key_material ks" and "utf8_encode p \<noteq> None" and "stake 12 s1 \<noteq> stake 12 s2"
  shows "\<exists>t1 t2 s1' s2'. encrypt_value L ks p s1 = (Inr t1, s1')
           \<and> encrypt_value L ks p s2 = (Inr t2, s2') \<and> t1 \<noteq> t2"
proof -
  obtain key rest where ks: "ks = key # rest" and len: "length key = 32"
    using assms(1) by (cases ks) (auto simp: key_material_def)
  obtain data where d: "utf8_encode p = Some data" using assms(2) by auto
  have "token_of L key (stake 12 s1) data \<noteq> token_of L key (stake 12 s2) data"
    using token_of_inj [of L key "stake 12 s1" data key "stake 12 s2" data] assms(3) by auto
  then show ?thesis
    unfolding ks using encrypt_value_Cons [OF len d] by blast
qed

theorem distinct_nonces_witness:
  "key_material [key_a] \<and> utf8_encode (pystr_of ''hello'') \<noteq> None
   \<and> stake 12 (sconst (0 :: byte)) \<noteq> stake 12 (sconst 1)
   \<and> (\<exists>t1 t2 s1' s2'. encrypt_value toy_lib [key_a] (pystr_of ''hello'') (sconst 0) = (Inr t1, s1')
           \<and> encrypt_value toy_lib [key_a] (pystr_of ''hello'') (sconst 1) = (Inr t2, s2') \<and> t1 \<noteq> t2)"
proof -
  have h: "utf8_encode (pystr_of ''hello'') \<noteq> None" by (simp add: hello_bytes)
  show ?thesis
    using distinct_nonces [OF key_material_a h stake_sconst_differ, of toy_lib]
      key_material_a h stake_sconst_differ
    by blast
qed

text \<open>
  Claim C10 (\<^verbatim>\<open>get_prep_value\<close> of the mixin).  Let \<open>v\<close> be what \<^verbatim>\<open>super().get_prep_value\<close>
  returns.  When \<open>v\<close> is falsy the result is \<^verbatim>\<open>None\<close> and the entropy is untouched: no call
  of \<^verbatim>\<open>encrypt_value\<close> is made.  When \<open>v\<close> is truthy the result is the token of its text
  \<^verbatim>\<open>str(v)\<close>.  \<^verbatim>\<open>None\<close>, the empty string, 0, \<^verbatim>\<open>False\<close> and the empty list and dict are
  falsy, so an empty string is stored as null.
\<close>

theorem falsy_is_null:
  assumes "super_get_prep_value value = Inr v"
  shows "(\<not> truthy v \<longrightarrow> get_prep_value L super_get_prep_value ks value s = (Inr PNone, s))
       \<and> (truthy v \<longrightarrow>
            get_prep_value L super_get_prep_value ks value s
              = (case encrypt_value L ks (py_str L v) s of
                   (Inl e, s') \<Rightarrow> (Inl e, s')
                 | (Inr token, s') \<Rightarrow> (Inr (PStr token), s')))
       \<and> \<not> truthy PNone \<and> \<not> truthy (PStr []) \<and> \<not> truthy (PInt 0) \<and> \<not> truthy (PBool False)
       \<and> \<not> truthy (PList []) \<and> \<not> truthy (PDict [])"
proof -
  have "(case v of PStr t \<Rightarrow> t | _ \<Rightarrow> py_str L v) = py_str L v"
    by (cases v) simp_all
  then show ?thesis using assms by (simp add: get_prep_value_def)
qed

theorem falsy_is_null_witness:
  "Inr (PStr []) = (Inr (PStr []) :: error + pyval)
   \<and> get_prep_value toy_lib Inr [key_a] (PStr []) (sconst 0) = (Inr PNone, sconst 0)
   \<and> get_prep_value toy_lib Inr [key_a] (PInt 0) (sconst 0) = (Inr PNone, sconst 0)
   \<and> get_prep_value toy_lib Inr [key_a] (PInt 5) (sconst 0)
       = (Inr (PStr (token_of toy_lib key_a (stake 12 (sconst 0)) (bytes_of ''5''))),
          sdrop 12 (sconst 0))"
proof -
  have five: "utf8_encode (py_str toy_lib (PInt 5)) = Some (bytes_of ''5'')"
    by (simp add: str_int_def bytes_of_def utf8_encode_cp_def)
  have e: "encrypt_value toy_lib [key_a] (py_str toy_lib (PInt 5)) (sconst 0)
       = (Inr (token_of toy_lib key_a (stake 12 (sconst 0)) (bytes_of ''5'')), sdrop 12 (sconst 0))"
    by (rule encrypt_value_Cons [OF _ five]) (simp add: key_a_def)
  show ?thesis
    using falsy_is_null [of Inr "PStr []" "PStr []" toy_lib "[key_a]" "sconst 0"]
      falsy_is_null [of Inr "PInt 0" "PInt 0" toy_lib "[key_a]" "sconst 0"]
      falsy_is_null [of Inr "PInt 5" "PInt 5" toy_lib "[key_a]" "sconst 0"] e
    by simp
qed

text \<open>
  Claim C6 (structural fidelity).  For every document whose leaves have an encodable text,
  \<^verbatim>\<open>_encrypt_values\<close> succeeds, whatever nonces it draws, and \<^verbatim>\<open>_decrypt_values\<close> of its result
  has the shape of the document (same keys in the same order, same nesting, same number of
  elements) and, leaf by leaf, the text \<^verbatim>\<open>str(leaf)\<close> of the original leaf.
\<close>

theorem structural_fidelity:
  assumes "lib_ok L" and "key_material ks" and "leaves_encodable L doc"
  shows "\<exists>enc s'. encrypt_values L ks doc s = (Inr enc, s')
           \<and> decrypt_values L ks enc = textual L doc
           \<and> shape (decrypt_values L ks enc) = shape doc
           \<and> leaves (decrypt_values L ks enc) = map (\<lambda>l. PStr (py_str L l)) (leaves doc)"
proof -
  obtain enc s' where "encrypt_values L ks doc s = (Inr enc, s')"
    "decrypt_values L ks enc = textual L doc"
    using walk_there_and_back [OF assms] unfolding there_and_back_def by blast
  then show ?thesis by (simp add: shape_textual leaves_textual)
qed

theorem structural_fidelity_witness:
  "lib_ok toy_lib \<and> key_material [key_a] \<and> leaves_encodable toy_lib sample_doc
   \<and> (\<exists>enc s'. encrypt_values toy_lib [key_a] sample_doc (sconst 0) = (Inr enc, s')
        \<and> decrypt_values toy_lib [key_a] enc
            = PDict [(pystr_of ''a'', PList [PStr (pystr_of ''1''), PStr (pystr_of ''x'')]),
                     (pystr_of ''b'', PStr (pystr_of ''None''))])"
proof -
  have t: "textual toy_lib sample_doc
            = PDict [(pystr_of ''a'', PList [PStr (pystr_of ''1''), PStr (pystr_of ''x'')]),
                     (pystr_of ''b'', PStr (pystr_of ''None''))]"
    by (simp add: sample_doc_def str_int_def pystr_of_def)
  show ?thesis
    using structural_fidelity [OF lib_ok_toy key_material_a sample_doc_encodable, of "sconst 0"]
      lib_ok_toy key_material_a sample_doc_encodable
    unfolding t by blast
qed

text \<open>
  Claim C7 (null leaves) does not hold of \<^verbatim>\<open>_encrypt_values\<close>, which has no test for
  \<^verbatim>\<open>None\<close>: a null is turned into the text \<^verbatim>\<open>None\<close>, that text is encrypted, and the walk
  back returns the string \<^verbatim>\<open>None\<close> in place of the null.  \<^verbatim>\<open>_decrypt_values\<close> does keep a
  null as it is.
\<close>

theorem null_is_encrypted:
  assumes "lib_ok L" and "key_material ks"
  shows "\<exists>token s'. encrypt_values L ks PNone s = (Inr (PStr token), s')
           \<and> decrypt_value L ks token = Inr (pystr_of ''None'')
           \<and> decrypt_values L ks (PStr token) = PStr (pystr_of ''None'')
           \<and> decrypt_values L ks PNone = PNone"
proof -
  have n: "utf8_encode (pystr_of ''None'') \<noteq> None"
    by (simp add: pystr_of_def utf8_encode_cp_def)
  obtain token s' where t: "encrypt_value L ks (pystr_of ''None'') s = (Inr token, s')"
    "decrypt_value L ks token = Inr (pystr_of ''None'')"
    "decrypt_values L ks (PStr token) = PStr (pystr_of ''None'')"
    using leaf_there_and_back [OF assms n, of s] by blast
  then show ?thesis by simp
qed

theorem null_is_encrypted_witness:
  "lib_ok toy_lib \<and> key_material [key_a]
   \<and> (\<exists>token s'. encrypt_values toy_lib [key_a] PNone (sconst 0) = (Inr (PStr token), s')
        \<and> decrypt_values toy_lib [key_a] (PStr token) = PStr (pystr_of ''None''))
   \<and> decrypt_values toy_lib [key_a] PNone = PNone"
  using null_is_encrypted [OF lib_ok_toy key_material_a, of "sconst 0"] lib_ok_toy key_material_a
  by blast

end
